theory Spec2Isabelle
  imports Main "HOL-Library.Sublist"
begin

section \<open>Strings\<close>

text \<open>
  Python 2 byte strings are modelled as \<^typ>\<open>string\<close>.  The three string tests the
  completer uses are \<open>s.startswith(p)\<close>, \<open>s.endswith(p)\<close> and \<open>w in s\<close>.
\<close>

fun startswith :: "string \<Rightarrow> string \<Rightarrow> bool" where
  "startswith s [] = True"
| "startswith [] (p # ps) = False"
| "startswith (c # cs) (p # ps) = (c = p \<and> startswith cs ps)"

definition endswith :: "string \<Rightarrow> string \<Rightarrow> bool" where
  "endswith s p = startswith (rev s) (rev p)"

fun str_contains :: "string \<Rightarrow> string \<Rightarrow> bool" where
  "str_contains w [] = (w = [])"
| "str_contains w (c # cs) = (startswith (c # cs) w \<or> str_contains w cs)"

section \<open>The filename generator\<close>

text \<open>\<open>Completer._is_hidden_file\<close>.\<close>

definition is_hidden_file :: "string \<Rightarrow> bool" where
  "is_hidden_file filename = startswith filename ''.''"

text \<open>
  \<open>Completer.gen_filename_completions\<close> runs up to three loops over \<open>filenames\<close>, which
  the caller has already materialised as a list.  Each loop is a recursion that returns
  the names it yields; the first two also thread the flag \<open>match_found\<close>.  None of the
  loops can raise, so the generator is modelled by the list of what it yields, in order.
\<close>

fun prefix_loop :: "string \<Rightarrow> string list \<Rightarrow> bool \<Rightarrow> bool \<times> string list" where
  "prefix_loop word [] match_found = (match_found, [])"
| "prefix_loop word (filename # rest) match_found =
     (if startswith filename word
      then (case prefix_loop word rest True of (mf, out) \<Rightarrow> (mf, filename # out))
      else prefix_loop word rest match_found)"

fun visible_loop :: "string list \<Rightarrow> bool \<Rightarrow> bool \<times> string list" where
  "visible_loop [] match_found = (match_found, [])"
| "visible_loop (filename # rest) match_found =
     (if \<not> is_hidden_file filename
      then (case visible_loop rest True of (mf, out) \<Rightarrow> (mf, filename # out))
      else visible_loop rest match_found)"

fun substring_loop :: "string \<Rightarrow> string list \<Rightarrow> string list" where
  "substring_loop word [] = []"
| "substring_loop word (filename # rest) =
     (if str_contains word filename then filename # substring_loop word rest
      else substring_loop word rest)"

text \<open>
  The \<open>if word: ... else: ...\<close> statement, the prefix phase: the flag it leaves and the
  names it yields.
\<close>

definition prefix_phase :: "string \<Rightarrow> string list \<Rightarrow> bool \<times> string list" where
  "prefix_phase word filenames =
     (if word \<noteq> [] then prefix_loop word filenames False
      else visible_loop filenames False)"

definition gen_filename_completions :: "string \<Rightarrow> string list \<Rightarrow> string list" where
  "gen_filename_completions word filenames =
     (case prefix_phase word filenames of
        (match_found, out) \<Rightarrow>
          out @ (if \<not> match_found then substring_loop word filenames else []))"

section \<open>Exceptions and generators\<close>

text \<open>
  The exceptions that can travel through the completer: \<open>OSError\<close> from \<open>os.listdir\<close>,
  \<open>re.error\<close> from a malformed pattern, \<open>TypeError\<close> from subscripting \<open>None\<close>,
  \<open>IndexError\<close> from subscripting a list out of range, and \<open>OtherError\<close> for anything
  else a caller-supplied extension or transformation raises.
\<close>

datatype error = OSError | RegexError | TypeError | IndexError | OtherError

text \<open>
  A Python generator is consumed one item at a time, and an exception raised inside it
  surfaces at the consumer, at the item where it happens.  A generator is therefore the
  sequence of its steps: it stops, it raises, or it yields an item and continues.
  Extensions are taken to produce finitely many items.
\<close>

datatype 'a gen = Stop | Raise error | Yield 'a "'a gen"

text \<open>A loop that yields each item of a list.\<close>

fun gen_of_list :: "'a list \<Rightarrow> 'a gen" where
  "gen_of_list [] = Stop"
| "gen_of_list (x # xs) = Yield x (gen_of_list xs)"

text \<open>Two loops in sequence inside one generator: the second runs once the first is done.\<close>

fun gen_append :: "'a gen \<Rightarrow> 'a gen \<Rightarrow> 'a gen" where
  "gen_append Stop h = h"
| "gen_append (Raise e) h = Raise e"
| "gen_append (Yield x g) h = Yield x (gen_append g h)"

text \<open>\<open>list(g)\<close>, and equally a list comprehension over \<open>g\<close>: all items, or the exception.\<close>

fun drain :: "'a gen \<Rightarrow> error + 'a list" where
  "drain Stop = Inr []"
| "drain (Raise e) = Inl e"
| "drain (Yield x g) = (case drain g of Inl e \<Rightarrow> Inl e | Inr xs \<Rightarrow> Inr (x # xs))"

text \<open>
  Calling a generator function runs none of its body: the call returns the generator
  object, and cannot raise.
\<close>

definition generator_call :: "('a \<Rightarrow> 'b gen) \<Rightarrow> 'a \<Rightarrow> error + 'b gen" where
  "generator_call f x = Inr (f x)"

text \<open>\<open>xs[i]\<close> on a list: a negative index counts from the end.\<close>

definition getitem :: "'a list \<Rightarrow> int \<Rightarrow> error + 'a" where
  "getitem xs i =
     (if 0 \<le> i \<and> i < int (length xs) then Inr (xs ! nat i)
      else if i < 0 \<and> - int (length xs) \<le> i then Inr (xs ! nat (int (length xs) + i))
      else Inl IndexError)"

section \<open>Library functions the completer calls\<close>

text \<open>\<open>posixpath.split\<close> and \<open>posixpath.join\<close> (with one component to join).\<close>

definition path_split :: "string \<Rightarrow> string \<times> string" where
  "path_split p =
     (let i = length p - length (takeWhile (\<lambda>c. c \<noteq> CHR ''/'') (rev p));
          head = take i p;
          tail = drop i p
      in (if head \<noteq> [] \<and> head \<noteq> replicate (length head) (CHR ''/'')
          then rev (dropWhile (\<lambda>c. c = CHR ''/'') (rev head))
          else head,
          tail))"

definition path_join :: "string \<Rightarrow> string \<Rightarrow> string" where
  "path_join a b =
     (if startswith b ''/'' then b
      else if a = [] \<or> endswith a ''/'' then a @ b
      else a @ ''/'' @ b)"

text \<open>\<open>s.replace(old, new)\<close>: the occurrences of \<open>old\<close> are replaced from left to right.\<close>

function str_replace :: "string \<Rightarrow> string \<Rightarrow> string \<Rightarrow> string" where
  "str_replace [] old new = (if old = [] then new else [])"
| "str_replace (c # cs) old new =
     (if old = [] then new @ c # str_replace cs old new
      else if startswith (c # cs) old
      then new @ str_replace (drop (length old) (c # cs)) old new
      else c # str_replace cs old new)"
  by pat_completeness auto

termination str_replace
  by (relation "measure (\<lambda>(s, old, new). length s)") auto

text \<open>
  The world outside the process, as the completer reads it: \<open>os.listdir\<close> (\<open>None\<close> when it
  raises \<open>OSError\<close>), \<open>os.path.isdir\<close>, \<open>os.environ\<close> in iteration order, and
  \<open>re.match(pattern, s) is not None\<close>, which raises \<open>re.error\<close> on a malformed pattern.
\<close>

record world =
  listdir :: "string \<Rightarrow> string list option"
  isdir :: "string \<Rightarrow> bool"
  environ :: "(string \<times> string) list"
  re_match :: "string \<Rightarrow> string \<Rightarrow> error + bool"

section \<open>A fragment of the regular expressions of \<open>re\<close>\<close>

text \<open>
  The examples need \<open>re.match\<close> on concrete patterns.  The fragment covers literal
  characters, \<open>.\<close> (any character but a newline), a backslash before a character that is
  not alphanumeric, and the postfix \<open>*\<close>.  A pattern is malformed when a \<open>*\<close> has nothing to
  repeat or when it ends in a lone backslash; a pattern that uses any other metacharacter
  is outside the fragment.
\<close>

datatype re_atom = AnyChar | Lit char

datatype re_token = TAtom re_atom | TStar | TBadEscape | TOther

datatype re_item = Once re_atom | Star re_atom

datatype re_parsed = Malformed | Unsupported | Parsed "re_item list"

definition is_alnum :: "char \<Rightarrow> bool" where
  "is_alnum c =
     (let n = (of_char c :: nat)
      in (48 \<le> n \<and> n \<le> 57) \<or> (65 \<le> n \<and> n \<le> 90) \<or> (97 \<le> n \<and> n \<le> 122))"

fun re_tokens :: "string \<Rightarrow> re_token list" where
  "re_tokens [] = []"
| "re_tokens (c # cs) =
     (if c = CHR 0x5C
      then (case cs of
              [] \<Rightarrow> [TBadEscape]
            | d # ds \<Rightarrow> (if is_alnum d then TOther else TAtom (Lit d)) # re_tokens ds)
      else if c = CHR ''*'' then TStar # re_tokens cs
      else if c = CHR ''.'' then TAtom AnyChar # re_tokens cs
      else if c \<in> set ''()[]{}|^$+?'' then TOther # re_tokens cs
      else TAtom (Lit c) # re_tokens cs)"

definition re_cons :: "re_item \<Rightarrow> re_parsed \<Rightarrow> re_parsed" where
  "re_cons i r = (case r of Parsed is \<Rightarrow> Parsed (i # is) | other \<Rightarrow> other)"

fun re_items :: "re_token list \<Rightarrow> re_parsed" where
  "re_items [] = Parsed []"
| "re_items (TAtom a # TStar # ts) = re_cons (Star a) (re_items ts)"
| "re_items (TAtom a # ts) = re_cons (Once a) (re_items ts)"
| "re_items (TStar # ts) = Malformed"
| "re_items (TBadEscape # ts) = Malformed"
| "re_items (TOther # ts) = Unsupported"

definition re_parse :: "string \<Rightarrow> re_parsed" where
  "re_parse pattern = re_items (re_tokens pattern)"

fun atom_accepts :: "re_atom \<Rightarrow> char \<Rightarrow> bool" where
  "atom_accepts AnyChar c = (c \<noteq> CHR 0x0A)"
| "atom_accepts (Lit d) c = (c = d)"

text \<open>\<open>re.match\<close> anchors the pattern at the start of the string only.\<close>

fun re_prefix_match :: "re_item list \<Rightarrow> string \<Rightarrow> bool" where
  "re_prefix_match [] s = True"
| "re_prefix_match (Once a # r) [] = False"
| "re_prefix_match (Once a # r) (c # cs) = (atom_accepts a c \<and> re_prefix_match r cs)"
| "re_prefix_match (Star a # r) [] = re_prefix_match r []"
| "re_prefix_match (Star a # r) (c # cs) =
     (re_prefix_match r (c # cs) \<or> (atom_accepts a c \<and> re_prefix_match (Star a # r) cs))"

text \<open>\<open>None\<close>: the pattern is outside the fragment.\<close>

definition py_re_match :: "string \<Rightarrow> string \<Rightarrow> (error + bool) option" where
  "py_re_match pattern s =
     (case re_parse pattern of
        Malformed \<Rightarrow> Some (Inl RegexError)
      | Unsupported \<Rightarrow> None
      | Parsed r \<Rightarrow> Some (Inr (re_prefix_match r s)))"

section \<open>The transform pipeline\<close>

text \<open>
  Modelled from the spec: the module \<open>transform\<close>, which \<open>completer.py\<close> imports, is not
  among the sources.  After sections 3 and 4.1 of the specification a transform is a
  pair of functions (forward, inverse) over strings; the pipeline applies the forward
  functions in list order, and the inverse functions traversing the same list in reverse
  order; a transform that raises propagates.  The keyword \<open>word=True\<close>, which the
  completer passes on every call, has no counterpart in the specification.
\<close>

record transformation =
  forward_fn :: "string \<Rightarrow> error + string"
  inverse_fn :: "string \<Rightarrow> error + string"

fun apply_rules :: "(string \<Rightarrow> error + string) list \<Rightarrow> string \<Rightarrow> error + string" where
  "apply_rules [] s = Inr s"
| "apply_rules (f # fs) s = (case f s of Inl e \<Rightarrow> Inl e | Inr s' \<Rightarrow> apply_rules fs s')"

definition transform :: "string \<Rightarrow> transformation list \<Rightarrow> bool \<Rightarrow> error + string" where
  "transform sentence transforms inverse' =
     (if inverse' then apply_rules (map inverse_fn (rev transforms)) sentence
      else apply_rules (map forward_fn transforms) sentence)"

text \<open>
  Modelled from the spec: the inputs a pipeline is declared to support.  Each transform
  comes with the set of strings it supports; a word is supported by the pipeline when
  every stage supports what reaches it and its forward function does not raise there.
\<close>

fun in_support :: "(transformation \<times> (string \<Rightarrow> bool)) list \<Rightarrow> string \<Rightarrow> bool" where
  "in_support [] s = True"
| "in_support ((t, S) # rest) s =
     (S s \<and> (case forward_fn t s of Inl e \<Rightarrow> False | Inr s' \<Rightarrow> in_support rest s'))"

section \<open>The completer\<close>

record completer =
  transforms :: "transformation list"
  use_suffix :: bool
  exclude_patterns :: "string list"
  extensions :: "(string \<Rightarrow> string gen) list"

text \<open>
  \<open>Completer.exclude_matches\<close>.  The inner \<open>for ... else\<close> loop over the patterns returns
  whether it left by \<open>break\<close>; the outer loop pulls the candidates one at a time.
\<close>

fun rule_loop :: "world \<Rightarrow> string list \<Rightarrow> string \<Rightarrow> error + bool" where
  "rule_loop w [] m = Inr False"
| "rule_loop w (exclude_pattern # rest) m =
     (case re_match w exclude_pattern m of
        Inl e \<Rightarrow> Inl e
      | Inr True \<Rightarrow> Inr True
      | Inr False \<Rightarrow> rule_loop w rest m)"

fun exclude_matches :: "world \<Rightarrow> completer \<Rightarrow> string gen \<Rightarrow> string gen" where
  "exclude_matches w c Stop = Stop"
| "exclude_matches w c (Raise e) = Raise e"
| "exclude_matches w c (Yield m g) =
     (case rule_loop w (exclude_patterns c) m of
        Inl e \<Rightarrow> Raise e
      | Inr True \<Rightarrow> exclude_matches w c g
      | Inr False \<Rightarrow> Yield m (exclude_matches w c g))"

text \<open>\<open>Completer.gen_variable_completions\<close>, over the keys of the environment.\<close>

fun variable_loop :: "string \<Rightarrow> string list \<Rightarrow> string list" where
  "variable_loop var [] = []"
| "variable_loop var (k # ks) =
     (if startswith k var then (''$'' @ k) # variable_loop var ks
      else variable_loop var ks)"

definition gen_variable_completions :: "string \<Rightarrow> (string \<times> string) list \<Rightarrow> string list" where
  "gen_variable_completions word env = variable_loop (drop 1 word) (map fst env)"

text \<open>\<open>Completer.gen_matches\<close>.\<close>

fun extension_loop :: "(string \<Rightarrow> string gen) list \<Rightarrow> string \<Rightarrow> string gen" where
  "extension_loop [] word = Stop"
| "extension_loop (extension # rest) word =
     gen_append (extension word) (extension_loop rest word)"

definition gen_matches :: "world \<Rightarrow> completer \<Rightarrow> string \<Rightarrow> string gen" where
  "gen_matches w c word =
     gen_append
       (if startswith word ''$''
        then gen_of_list (gen_variable_completions word (environ w))
        else (case path_split word of
                (head, tail) \<Rightarrow>
                  (case listdir w (if head \<noteq> [] then head else ''.'') of
                     None \<Rightarrow> Raise OSError
                   | Some filenames \<Rightarrow>
                       gen_of_list
                         (map (path_join head) (gen_filename_completions tail filenames)))))
       (extension_loop (extensions c) word)"

text \<open>\<open>Completer._escape\<close> and \<open>Completer.inflect\<close>.\<close>

definition escape :: "string \<Rightarrow> string" where
  "escape path = str_replace path '' '' [CHR 0x5C, CHR '' '']"

definition inflect :: "world \<Rightarrow> string \<Rightarrow> string" where
  "inflect w filename =
     (let suffix = (if isdir w filename then ''/'' else '' '')
      in escape filename @ suffix)"

text \<open>
  \<open>Completer.get_matches\<close> returns a list or \<open>None\<close>, or raises.  The \<open>try\<close> block holds
  only the call of the generator function \<open>exclude_matches\<close>; the list comprehension and
  \<open>list(matches)\<close>, which consume the generators, are in its \<open>else\<close> branch.
\<close>

definition get_matches :: "world \<Rightarrow> completer \<Rightarrow> string \<Rightarrow> error + string list option" where
  "get_matches w c word =
     (let matches = gen_matches w c word
      in case generator_call (exclude_matches w c) matches of
           Inl e \<Rightarrow> Inr None
         | Inr matches \<Rightarrow>
             (if use_suffix c
              then (case drain matches of
                      Inl e \<Rightarrow> Inl e
                    | Inr ms \<Rightarrow> Inr (Some (map (inflect w) ms)))
              else (case drain matches of
                      Inl e \<Rightarrow> Inl e
                    | Inr ms \<Rightarrow> Inr (Some ms))))"

text \<open>
  \<open>Completer.complete\<close>.  The first \<open>transform\<close> is outside the \<open>try\<close>; inside it are
  \<open>get_matches\<close>, the subscript (a \<open>TypeError\<close> when \<open>get_matches\<close> returned \<open>None\<close>) and the
  inverse \<open>transform\<close>.  Only \<open>IndexError\<close> is caught.  The optional \<open>rl\<close> setting at the
  start touches the line editor alone and is left out.
\<close>

definition complete :: "world \<Rightarrow> completer \<Rightarrow> string \<Rightarrow> int \<Rightarrow> error + string option" where
  "complete w c word state =
     (case transform word (transforms c) False of
        Inl e \<Rightarrow> Inl e
      | Inr word' \<Rightarrow>
          (case (case get_matches w c word' of
                   Inl e \<Rightarrow> Inl e
                 | Inr None \<Rightarrow> Inl TypeError
                 | Inr (Some ms) \<Rightarrow>
                     (case getitem ms state of
                        Inl e \<Rightarrow> Inl e
                      | Inr match \<Rightarrow> transform match (transforms c) True)) of
             Inl e \<Rightarrow> (if e = IndexError then Inr None else Inl e)
           | Inr r \<Rightarrow> Inr (Some r)))"

section \<open>A concrete world for the examples\<close>

text \<open>
  \<open>re.match\<close> on the fragment.  The examples use patterns of the fragment only; on any
  other pattern this function reports no match.
\<close>

definition example_re_match :: "string \<Rightarrow> string \<Rightarrow> error + bool" where
  "example_re_match pattern s =
     (case py_re_match pattern s of Some r \<Rightarrow> r | None \<Rightarrow> Inr False)"

text \<open>
  The current directory holds the four files of the exclusion example, the directory
  \<open>fruit\<close> the three of the fallback example; no other directory can be listed.
\<close>

definition example_world :: world where
  "example_world =
     \<lparr> listdir = (\<lambda>d. if d = ''.'' then Some [''main.c'', ''main.c~'', ''main.o'', ''README'']
                     else if d = ''fruit'' then Some [''apple'', ''banana'', ''grape'']
                     else None),
       isdir = (\<lambda>p. p = ''fruit''),
       environ = [(''HOME'', ''/home/user''), (''PATH'', ''/bin''), (''HOSTNAME'', ''box'')],
       re_match = example_re_match \<rparr>"

text \<open>The patterns \<open>.*~\<close> and \<open>.*\.o\<close>.\<close>

definition example_completer :: completer where
  "example_completer =
     \<lparr> transforms = [],
       use_suffix = True,
       exclude_patterns = [''.*~'', [CHR ''.'', CHR ''*'', CHR 0x5C, CHR ''.'', CHR ''o'']],
       extensions = [] \<rparr>"

text \<open>Two transforms for the round trip: each adds one character in front and removes it again.\<close>

definition tag_transform :: "char \<Rightarrow> transformation" where
  "tag_transform t =
     \<lparr> forward_fn = (\<lambda>s. Inr (t # s)),
       inverse_fn = (\<lambda>s. case s of [] \<Rightarrow> Inl OtherError
                          | c # cs \<Rightarrow> if c = t then Inr cs else Inl OtherError) \<rparr>"

text \<open>
  Tilde expansion: a leading \<open>~\<close> stands for the home directory \<open>/home/user\<close>.  The inverse
  undoes the forward function on every word that does not already begin with the home
  directory, and on no other word.
\<close>

definition tilde_transform :: transformation where
  "tilde_transform =
     \<lparr> forward_fn = (\<lambda>s. if startswith s ''~'' then Inr (''/home/user'' @ drop 1 s) else Inr s),
       inverse_fn = (\<lambda>s. if startswith s ''/home/user'' then Inr (''~'' @ drop 10 s)
                          else Inr s) \<rparr>"

definition tilde_support :: "string \<Rightarrow> bool" where
  "tilde_support s = (\<not> startswith s ''/home/user'')"

text \<open>A world whose only directory is the home directory, and a completer that expands tildes.\<close>

definition home_world :: world where
  "home_world =
     \<lparr> listdir = (\<lambda>d. if d = ''/home/user'' then Some [''notes'', ''.profile''] else None),
       isdir = (\<lambda>p. False),
       environ = [],
       re_match = example_re_match \<rparr>"

definition home_completer :: completer where
  "home_completer =
     \<lparr> transforms = [tilde_transform],
       use_suffix = True,
       exclude_patterns = [],
       extensions = [] \<rparr>"

section \<open>Facts about the string tests\<close>

lemma startswith_prefix: "startswith s p = prefix p s"
  by (induction s p rule: startswith.induct) auto

lemma str_contains_sublist: "str_contains w s = sublist w s"
proof (induction s)
  case Nil
  show ?case by simp
next
  case (Cons c cs)
  show ?case
    by (simp add: Cons.IH startswith_prefix sublist_Cons_right del: startswith.simps)
qed

lemma str_contains_empty: "str_contains [] s"
  by (simp add: str_contains_sublist)

section \<open>Facts about the filename generator's loops\<close>

lemma prefix_loop_out:
  "snd (prefix_loop word filenames mf) = filter (\<lambda>f. startswith f word) filenames"
  by (induction filenames arbitrary: mf) (simp_all add: split_def)

lemma prefix_loop_flag:
  "fst (prefix_loop word filenames mf) = (mf \<or> (\<exists>f \<in> set filenames. startswith f word))"
  by (induction filenames arbitrary: mf) (auto simp add: split_def)

lemma visible_loop_out:
  "snd (visible_loop filenames mf) = filter (\<lambda>f. \<not> is_hidden_file f) filenames"
  by (induction filenames arbitrary: mf) (simp_all add: split_def)

lemma visible_loop_flag:
  "fst (visible_loop filenames mf) = (mf \<or> (\<exists>f \<in> set filenames. \<not> is_hidden_file f))"
  by (induction filenames arbitrary: mf) (auto simp add: split_def)

lemma substring_loop_filter:
  "substring_loop word filenames = filter (str_contains word) filenames"
  by (induction filenames) simp_all

lemma gen_filename_completions_nonempty:
  "word \<noteq> [] \<Longrightarrow>
   gen_filename_completions word filenames =
     (if \<exists>f \<in> set filenames. startswith f word
      then filter (\<lambda>f. startswith f word) filenames
      else filter (str_contains word) filenames)"
proof -
  assume w: "word \<noteq> []"
  obtain mf out where p: "prefix_loop word filenames False = (mf, out)"
    by (cases "prefix_loop word filenames False")
  have out: "out = filter (\<lambda>f. startswith f word) filenames"
    using prefix_loop_out [of word filenames False] p by simp
  have mf: "mf = (\<exists>f \<in> set filenames. startswith f word)"
    using prefix_loop_flag [of word filenames False] p by simp
  have none: "\<not> mf \<Longrightarrow> out = []"
    unfolding out mf by (simp add: filter_empty_conv)
  show ?thesis
  proof (cases mf)
    case True
    then show ?thesis
      using w p out mf by (simp add: gen_filename_completions_def prefix_phase_def)
  next
    case False
    then show ?thesis
      using w p none mf
      by (simp add: gen_filename_completions_def prefix_phase_def substring_loop_filter)
  qed
qed

lemma gen_filename_completions_empty:
  "gen_filename_completions [] filenames =
     (if \<exists>f \<in> set filenames. \<not> is_hidden_file f
      then filter (\<lambda>f. \<not> is_hidden_file f) filenames
      else filenames)"
proof -
  obtain mf out where p: "visible_loop filenames False = (mf, out)"
    by (cases "visible_loop filenames False")
  have out: "out = filter (\<lambda>f. \<not> is_hidden_file f) filenames"
    using visible_loop_out [of filenames False] p by simp
  have mf: "mf = (\<exists>f \<in> set filenames. \<not> is_hidden_file f)"
    using visible_loop_flag [of filenames False] p by simp
  have none: "\<not> mf \<Longrightarrow> out = []"
    unfolding out mf by (simp add: filter_empty_conv)
  have all: "filter (str_contains []) filenames = filenames"
    by (simp add: str_contains_empty)
  show ?thesis
  proof (cases mf)
    case True
    then show ?thesis
      using p out mf by (simp add: gen_filename_completions_def prefix_phase_def)
  next
    case False
    then show ?thesis
      using p none mf all
      by (simp add: gen_filename_completions_def prefix_phase_def substring_loop_filter)
  qed
qed

lemma prefix_phase_out:
  "snd (prefix_phase word filenames) =
     (if word \<noteq> [] then filter (\<lambda>f. startswith f word) filenames
      else filter (\<lambda>f. \<not> is_hidden_file f) filenames)"
  by (simp add: prefix_phase_def prefix_loop_out visible_loop_out)

section \<open>Facts about generators\<close>

lemma drain_gen_of_list: "drain (gen_of_list xs) = Inr xs"
  by (induction xs) simp_all

lemma gen_append_Stop: "gen_append g Stop = g"
  by (induction g) simp_all

lemma getitem_last: "xs \<noteq> [] \<Longrightarrow> getitem xs (int (length xs) - 1) = Inr (last xs)"
  by (simp add: getitem_def last_conv_nth nat_diff_distrib')

lemma getitem_beyond: "int (length xs) \<le> i \<Longrightarrow> getitem xs i = Inl IndexError"
  by (simp add: getitem_def)

section \<open>Facts about the exclusion filter\<close>

lemma rule_loop_wellformed:
  "\<forall>p \<in> set ps. \<exists>b. re_match w p m = Inr b \<Longrightarrow>
   rule_loop w ps m = Inr (\<exists>p \<in> set ps. re_match w p m = Inr True)"
proof (induction ps)
  case Nil
  show ?case by simp
next
  case (Cons p ps)
  from Cons.prems obtain b where b: "re_match w p m = Inr b" by auto
  from Cons.prems have "\<forall>q \<in> set ps. \<exists>b. re_match w q m = Inr b" by simp
  then have ih: "rule_loop w ps m = Inr (\<exists>q \<in> set ps. re_match w q m = Inr True)"
    by (rule Cons.IH)
  show ?case
    by (cases b) (simp_all add: b ih)
qed

lemma rule_loop_first_match:
  "\<forall>q \<in> set ps. re_match w q m = Inr False \<Longrightarrow> re_match w p m = Inr True \<Longrightarrow>
   rule_loop w (ps @ p # qs) m = Inr True"
  by (induction ps) simp_all

lemma rule_loop_raises:
  "\<forall>q \<in> set ps. re_match w q m = Inr False \<Longrightarrow> re_match w p m = Inl e \<Longrightarrow>
   rule_loop w (ps @ p # qs) m = Inl e"
  by (induction ps) simp_all

lemma exclude_matches_of_list:
  "\<forall>m \<in> set ms. \<forall>p \<in> set (exclude_patterns c). \<exists>b. re_match w p m = Inr b \<Longrightarrow>
   exclude_matches w c (gen_of_list ms) =
     gen_of_list
       (filter (\<lambda>m. \<not> (\<exists>p \<in> set (exclude_patterns c). re_match w p m = Inr True)) ms)"
proof (induction ms)
  case Nil
  show ?case by simp
next
  case (Cons m ms)
  from Cons.prems have "\<forall>p \<in> set (exclude_patterns c). \<exists>b. re_match w p m = Inr b"
    by simp
  then have r: "rule_loop w (exclude_patterns c) m
                  = Inr (\<exists>p \<in> set (exclude_patterns c). re_match w p m = Inr True)"
    by (rule rule_loop_wellformed)
  from Cons.prems have ih: "exclude_matches w c (gen_of_list ms) =
     gen_of_list
       (filter (\<lambda>m. \<not> (\<exists>p \<in> set (exclude_patterns c). re_match w p m = Inr True)) ms)"
    by (intro Cons.IH) simp
  show ?case
    by (cases "\<exists>p \<in> set (exclude_patterns c). re_match w p m = Inr True")
       (simp_all add: r ih)
qed

text \<open>A pattern matches when it matches a prefix of the candidate: \<open>.*\.o\<close> excludes \<open>main.old\<close>.\<close>

lemma example_re_match_anchored_at_start_only:
  "example_re_match [CHR ''.'', CHR ''*'', CHR 0x5C, CHR ''.'', CHR ''o''] ''main.old'' = Inr True"
  by (simp add: example_re_match_def py_re_match_def re_parse_def re_cons_def is_alnum_def)

section \<open>Facts about the orchestrator\<close>

text \<open>
  The handler of \<open>get_matches\<close> is dead code: whatever the configuration, \<open>get_matches\<close>
  returns a list or raises, and what it returns or raises is decided by consuming the
  filtered generator.
\<close>

lemma get_matches_never_None: "get_matches w c word \<noteq> Inr None"
  by (simp add: get_matches_def generator_call_def Let_def split: sum.splits)

lemma get_matches_drain:
  "get_matches w c word =
     (case drain (exclude_matches w c (gen_matches w c word)) of
        Inl e \<Rightarrow> Inl e
      | Inr ms \<Rightarrow> Inr (Some (if use_suffix c then map (inflect w) ms else ms)))"
  by (simp add: get_matches_def generator_call_def Let_def split: sum.splits)

text \<open>
  A malformed pattern raises out of \<open>get_matches\<close> as soon as one candidate reaches it,
  that is, when the patterns before it are well formed and do not match the candidate.
\<close>

lemma get_matches_malformed_pattern:
  assumes "gen_matches w c word = Yield m g"
      and "exclude_patterns c = ps @ p # qs"
      and "\<forall>q \<in> set ps. re_match w q m = Inr False"
      and "re_match w p m = Inl e"
  shows "get_matches w c word = Inl e"
proof -
  have "rule_loop w (exclude_patterns c) m = Inl e"
    unfolding assms(2) using assms(3,4) by (rule rule_loop_raises)
  then show ?thesis
    by (simp add: get_matches_drain assms(1))
qed

lemma example_matches:
  "get_matches example_world example_completer [] = Inr (Some [''main.c '', ''README ''])"
  by (simp add: get_matches_def generator_call_def gen_matches_def
      path_split_def path_join_def gen_filename_completions_def prefix_phase_def
      is_hidden_file_def example_world_def example_completer_def example_re_match_def
      py_re_match_def re_parse_def re_cons_def is_alnum_def inflect_def escape_def)

section \<open>Facts about the variable generator, the inflector and the transform pipeline\<close>

lemma variable_loop_filter:
  "variable_loop var ks = map (\<lambda>k. CHR ''$'' # k) (filter (\<lambda>k. startswith k var) ks)"
  by (induction ks) simp_all

lemma str_replace_char:
  "str_replace s [c] new = concat (map (\<lambda>x. if x = c then new else [x]) s)"
  by (induction s) simp_all

lemma apply_rules_append:
  "apply_rules (fs @ gs) s =
     (case apply_rules fs s of Inl e \<Rightarrow> Inl e | Inr s' \<Rightarrow> apply_rules gs s')"
  by (induction fs arbitrary: s) (simp_all split: sum.splits)

lemma supported_round_trip_rules:
  "\<forall>(t, S) \<in> set TS. \<forall>x y. S x \<and> forward_fn t x = Inr y \<longrightarrow> inverse_fn t y = Inr x \<Longrightarrow>
   in_support TS s \<Longrightarrow>
   \<exists>v. apply_rules (map forward_fn (map fst TS)) s = Inr v \<and>
       apply_rules (map inverse_fn (rev (map fst TS))) v = Inr s"
proof (induction TS arbitrary: s)
  case Nil
  then show ?case by simp
next
  case (Cons p TS)
  obtain t S where p: "p = (t, S)" by (cases p)
  from Cons.prems(2) p obtain u where S: "S s" and u: "forward_fn t s = Inr u"
    and rest: "in_support TS u"
    by (auto split: sum.splits)
  from Cons.prems(1) p S u have undo: "inverse_fn t u = Inr s" by auto
  from Cons.prems(1)
  have "\<forall>(t, S) \<in> set TS. \<forall>x y. S x \<and> forward_fn t x = Inr y \<longrightarrow> inverse_fn t y = Inr x"
    by simp
  then obtain v where v: "apply_rules (map forward_fn (map fst TS)) u = Inr v"
    and b: "apply_rules (map inverse_fn (rev (map fst TS))) v = Inr u"
    using rest Cons.IH by blast
  show ?case
    using v b by (simp add: p u apply_rules_append undo)
qed

lemma tilde_transform_invertible:
  "\<forall>(t, S) \<in> set [(tilde_transform, tilde_support)].
     \<forall>x y. S x \<and> forward_fn t x = Inr y \<longrightarrow> inverse_fn t y = Inr x"
proof -
  have "inverse_fn tilde_transform y = Inr x"
    if "tilde_support x" "forward_fn tilde_transform x = Inr y" for x y
  proof (cases "startswith x ''~''")
    case True
    then obtain xs where "x = CHR ''~'' # xs" by (cases x) auto
    then show ?thesis
      using that by (auto simp add: tilde_transform_def)
  next
    case False
    then show ?thesis
      using that by (auto simp add: tilde_transform_def tilde_support_def)
  qed
  then show ?thesis by simp
qed

text \<open>Outside its support the tilde transform does not round-trip.\<close>

lemma tilde_transform_unsupported_word:
  "transform ''/home/user/notes'' [tilde_transform] False = Inr ''/home/user/notes'' \<and>
   transform ''/home/user/notes'' [tilde_transform] True = Inr ''~/notes''"
  by (simp add: transform_def tilde_transform_def)

lemma tag_transforms_invertible:
  "\<forall>(t, S) \<in> set [(tag_transform (CHR ''a''), \<lambda>s. True),
                    (tag_transform (CHR ''b''), \<lambda>s. True)].
     \<forall>x y. S x \<and> forward_fn t x = Inr y \<longrightarrow> inverse_fn t y = Inr x"
  by (auto simp add: tag_transform_def)

lemma home_matches:
  "get_matches home_world home_completer ''/home/user/no''
     = Inr (Some [''/home/user/notes ''])"
  by (simp add: get_matches_def generator_call_def gen_matches_def
      path_split_def path_join_def endswith_def gen_filename_completions_def prefix_phase_def
      home_world_def home_completer_def inflect_def escape_def)

section \<open>The claims\<close>

text \<open>
  C1: with a malformed pattern in the exclusion list, \<open>get_matches\<close> should return \<open>None\<close>
  and no exception should leave the completion request.  The code does otherwise.  With
  the single pattern \<open>*.o\<close> (nothing to repeat) and the current directory of the examples,
  \<open>get_matches\<close> on the empty word raises the pattern's error, and so does \<open>complete\<close>.
\<close>

theorem malformed_pattern_raises:
  "get_matches example_world (example_completer \<lparr> exclude_patterns := [''*.o''] \<rparr>) []
     = Inl RegexError \<and>
   complete example_world (example_completer \<lparr> exclude_patterns := [''*.o''] \<rparr>) [] 0
     = Inl RegexError"
  by (simp add: complete_def transform_def get_matches_def generator_call_def gen_matches_def
      path_split_def path_join_def gen_filename_completions_def prefix_phase_def
      is_hidden_file_def example_world_def example_completer_def example_re_match_def
      py_re_match_def re_parse_def)

text \<open>
  C2, as stated: for a word that does not begin with \<open>$\<close> and whose directory cannot be
  listed, no exception escapes and \<open>get_matches\<close> returns normally.  This fails: the
  example world has no directory \<open>nodir\<close>, and for the word \<open>nodir/x\<close> consuming
  \<open>gen_matches\<close> raises \<open>OSError\<close>, as do \<open>get_matches\<close> and \<open>complete\<close>.
\<close>

theorem unlistable_directory_counterexample:
  "drain (gen_matches example_world example_completer ''nodir/x'') = Inl OSError \<and>
   get_matches example_world example_completer ''nodir/x'' = Inl OSError \<and>
   complete example_world example_completer ''nodir/x'' 0 = Inl OSError"
  by (simp add: complete_def transform_def get_matches_def generator_call_def gen_matches_def
      path_split_def example_world_def example_completer_def)

text \<open>
  C2, amended: for every word that does not begin with \<open>$\<close> and whose directory component
  cannot be listed, the filesystem generator yields no candidate and the \<open>OSError\<close> of the
  listing is not contained: \<open>gen_matches\<close> raises it at its first step, before any extension
  runs, \<open>get_matches\<close> raises it, and so does \<open>complete\<close> for every state, whenever the
  forward transform yields that word.
\<close>

theorem unlistable_directory_raises:
  assumes "\<not> startswith word ''$''"
      and "path_split word = (head, tail)"
      and "listdir w (if head \<noteq> [] then head else ''.'') = None"
  shows "gen_matches w c word = Raise OSError \<and>
         get_matches w c word = Inl OSError \<and>
         (transform word0 (transforms c) False = Inr word \<longrightarrow>
            complete w c word0 state = Inl OSError)"
proof -
  have g: "gen_matches w c word = Raise OSError"
    using assms by (simp add: gen_matches_def)
  have m: "get_matches w c word = Inl OSError"
    by (simp add: get_matches_drain g)
  show ?thesis
    by (simp add: g m complete_def)
qed

theorem unlistable_directory_raises_witness:
  "gen_matches example_world example_completer ''nodir/x'' = Raise OSError \<and>
   get_matches example_world example_completer ''nodir/x'' = Inl OSError \<and>
   complete example_world example_completer ''nodir/x'' 7 = Inl OSError"
proof -
  have a: "\<not> startswith ''nodir/x'' ''$''" by simp
  have b: "path_split ''nodir/x'' = (''nodir'', ''x'')" by (simp add: path_split_def)
  have d: "listdir example_world (if ''nodir'' \<noteq> [] then ''nodir'' else ''.'') = None"
    by (simp add: example_world_def)
  have t: "transform ''nodir/x'' (transforms example_completer) False = Inr ''nodir/x''"
    by (simp add: transform_def example_completer_def)
  show ?thesis
    using unlistable_directory_raises [OF a b d, of example_completer "''nodir/x''" 7] t
    by simp
qed

text \<open>
  C3, as stated: for every entry list and fragment, a non-empty fragment makes the
  generator yield exactly the entries that start with it, and the empty fragment exactly
  the entries that are not hidden.  This fails when no entry starts with the fragment:
  for the fragment \<open>oo\<close> and the entries \<open>foo\<close>, \<open>bar\<close> the generator yields \<open>foo\<close>, which
  does not start with \<open>oo\<close>.
\<close>

theorem prefix_policy_counterexample:
  "\<not> (gen_filename_completions ''oo'' [''foo'', ''bar'']
        = filter (\<lambda>f. startswith f ''oo'') [''foo'', ''bar''])"
  by (simp add: gen_filename_completions_def prefix_phase_def)

text \<open>
  C3, amended: if the fragment is non-empty and at least one entry starts with it, the
  generator yields exactly the entries that start with the fragment, in input order; if
  the fragment is empty and at least one entry is not hidden, it yields exactly the
  entries that do not begin with \<open>.\<close>, in input order.
\<close>

theorem prefix_policy_when_some_match:
  "(word \<noteq> [] \<and> (\<exists>f \<in> set filenames. startswith f word) \<longrightarrow>
      gen_filename_completions word filenames = filter (\<lambda>f. prefix word f) filenames) \<and>
   (word = [] \<and> (\<exists>f \<in> set filenames. \<not> is_hidden_file f) \<longrightarrow>
      gen_filename_completions word filenames
        = filter (\<lambda>f. \<not> prefix ''.'' f) filenames)"
proof (intro conjI impI)
  assume a: "word \<noteq> [] \<and> (\<exists>f \<in> set filenames. startswith f word)"
  then show "gen_filename_completions word filenames = filter (\<lambda>f. prefix word f) filenames"
    using gen_filename_completions_nonempty [of word filenames]
    by (simp add: startswith_prefix)
next
  assume a: "word = [] \<and> (\<exists>f \<in> set filenames. \<not> is_hidden_file f)"
  then show "gen_filename_completions word filenames
               = filter (\<lambda>f. \<not> prefix ''.'' f) filenames"
    using gen_filename_completions_empty [of filenames]
    by (simp add: is_hidden_file_def startswith_prefix)
qed

theorem prefix_policy_when_some_match_witness:
  "gen_filename_completions ''foo'' [''food'', ''foo'', ''fodder'', ''foonly'']
     = [''food'', ''foo'', ''foonly''] \<and>
   gen_filename_completions [] [''.git'', ''README'', ''.profile'', ''src'']
     = [''README'', ''src'']"
  using prefix_policy_when_some_match [of "''foo''" "[''food'', ''foo'', ''fodder'', ''foonly'']"]
        prefix_policy_when_some_match [of "[]" "[''.git'', ''README'', ''.profile'', ''src'']"]
  by (simp add: is_hidden_file_def)

text \<open>
  C4: whenever the prefix phase yields no entry at all, the generator yields exactly the
  entries that contain the fragment somewhere as a substring, in input order, and applies
  no hidden-file test in this phase.  For the entries \<open>apple\<close>, \<open>banana\<close>, \<open>grape\<close> and
  the fragment \<open>an\<close> that is \<open>banana\<close> alone.
\<close>

theorem fallback_substring_policy:
  assumes "snd (prefix_phase word filenames) = []"
  shows "gen_filename_completions word filenames = filter (\<lambda>f. sublist word f) filenames"
proof (cases "word = []")
  case True
  with assms have "\<not> (\<exists>f \<in> set filenames. \<not> is_hidden_file f)"
    by (simp add: prefix_phase_out filter_empty_conv)
  then show ?thesis
    using True gen_filename_completions_empty [of filenames] by simp
next
  case False
  with assms have "\<not> (\<exists>f \<in> set filenames. startswith f word)"
    by (simp add: prefix_phase_out filter_empty_conv)
  then show ?thesis
    using False gen_filename_completions_nonempty [of word filenames]
    by (simp add: str_contains_sublist [abs_def])
qed

theorem fallback_substring_policy_witness:
  "snd (prefix_phase ''an'' [''apple'', ''banana'', ''grape'']) = [] \<and>
   gen_filename_completions ''an'' [''apple'', ''banana'', ''grape''] = [''banana'']"
proof -
  have h: "snd (prefix_phase ''an'' [''apple'', ''banana'', ''grape'']) = []"
    by (simp add: prefix_phase_def)
  show ?thesis
    using h fallback_substring_policy [OF h]
    by (simp add: str_contains_sublist [symmetric])
qed

text \<open>
  C5: when the match list of a word (of its forward transform) has exactly \<open>k \<ge> 1\<close>
  elements, \<open>complete\<close> at state \<open>k - 1\<close> returns the last match transformed back, and at
  state \<open>k\<close> and at every larger state it returns \<open>None\<close> without raising.
\<close>

theorem state_exhaustion:
  assumes "transform word (transforms c) False = Inr word'"
      and "get_matches w c word' = Inr (Some ms)"
      and "length ms = k" and "1 \<le> k"
      and "transform (last ms) (transforms c) True = Inr r"
  shows "complete w c word (int k - 1) = Inr (Some r) \<and>
         (\<forall>state. int k \<le> state \<longrightarrow> complete w c word state = Inr None)"
proof -
  have ne: "ms \<noteq> []" using assms(3,4) by auto
  have l: "getitem ms (int k - 1) = Inr (last ms)"
    using getitem_last [OF ne] assms(3) by simp
  have b: "\<And>state. int k \<le> state \<Longrightarrow> getitem ms state = Inl IndexError"
    using getitem_beyond [of ms] assms(3) by simp
  show ?thesis
    using assms(1,2,5) l b by (simp add: complete_def)
qed

theorem state_exhaustion_witness:
  "complete example_world example_completer [] 1 = Inr (Some ''README '') \<and>
   complete example_world example_completer [] 2 = Inr None \<and>
   complete example_world example_completer [] 5 = Inr None"
proof -
  have t: "transform [] (transforms example_completer) False = Inr []"
    by (simp add: transform_def example_completer_def)
  have n: "length [''main.c '', ''README ''] = 2" by simp
  have k: "(1::nat) \<le> 2" by simp
  have r: "transform (last [''main.c '', ''README '']) (transforms example_completer) True
             = Inr ''README ''"
    by (simp add: transform_def example_completer_def)
  show ?thesis
    using state_exhaustion [OF t example_matches n k r] by simp
qed

text \<open>
  C6: the exclusion filter tests each candidate against the patterns in order, drops it
  at the first pattern that matches (the patterns after that one are not consulted), and
  keeps, in their order, exactly the candidates that no pattern matches.  This is for
  patterns that are well formed.  With the patterns \<open>.*~\<close> and \<open>.*\.o\<close> and the candidates
  \<open>main.c\<close>, \<open>main.c~\<close>, \<open>main.o\<close>, \<open>README\<close> exactly \<open>main.c\<close> and \<open>README\<close> survive.
\<close>

theorem exclusion_filter:
  assumes "\<forall>m \<in> set ms. \<forall>p \<in> set (exclude_patterns c). \<exists>b. re_match w p m = Inr b"
  shows "exclude_matches w c (gen_of_list ms) =
           gen_of_list
             (filter (\<lambda>m. \<not> (\<exists>p \<in> set (exclude_patterns c). re_match w p m = Inr True)) ms) \<and>
         (\<forall>m ps p qs.
            exclude_patterns c = ps @ p # qs \<and> (\<forall>q \<in> set ps. re_match w q m = Inr False) \<and>
            re_match w p m = Inr True \<longrightarrow> rule_loop w (exclude_patterns c) m = Inr True)"
  using exclude_matches_of_list [OF assms] rule_loop_first_match [of _ w] by simp

theorem exclusion_filter_witness:
  "exclude_matches example_world example_completer
     (gen_of_list [''main.c'', ''main.c~'', ''main.o'', ''README''])
   = gen_of_list [''main.c'', ''README'']"
proof -
  have h: "\<forall>m \<in> set [''main.c'', ''main.c~'', ''main.o'', ''README''].
             \<forall>p \<in> set (exclude_patterns example_completer).
               \<exists>b. re_match example_world p m = Inr b"
    by (simp add: example_world_def example_completer_def example_re_match_def
        py_re_match_def re_parse_def re_cons_def is_alnum_def)
  show ?thesis
    using exclusion_filter [OF h]
    by (simp add: example_world_def example_completer_def example_re_match_def
        py_re_match_def re_parse_def re_cons_def is_alnum_def)
qed

text \<open>
  C7: for every word that begins with \<open>$\<close> and every environment, the variable generator
  yields exactly \<open>$\<close> followed by \<open>k\<close> for each key \<open>k\<close> of the environment that starts with
  the word without its \<open>$\<close>, in the order of the keys; \<open>gen_matches\<close> yields these and then
  what the extensions yield, and does not depend on the filesystem.
\<close>

theorem variable_completion:
  "gen_variable_completions (CHR ''$'' # var) env
     = map (\<lambda>k. CHR ''$'' # k) (filter (\<lambda>k. prefix var k) (map fst env)) \<and>
   gen_matches w c (CHR ''$'' # var)
     = gen_append (gen_of_list (gen_variable_completions (CHR ''$'' # var) (environ w)))
         (extension_loop (extensions c) (CHR ''$'' # var)) \<and>
   gen_matches (w \<lparr> listdir := l, isdir := d \<rparr>) c (CHR ''$'' # var)
     = gen_matches w c (CHR ''$'' # var)"
  by (simp add: gen_variable_completions_def variable_loop_filter startswith_prefix
      gen_matches_def)

theorem variable_completion_witness:
  "gen_variable_completions ''$HO'' (environ example_world) = [''$HOME'', ''$HOSTNAME''] \<and>
   gen_matches example_world example_completer ''$HO''
     = gen_of_list [''$HOME'', ''$HOSTNAME'']"
  using variable_completion [of "''HO''" "environ example_world" example_world example_completer]
  by (simp add: example_world_def example_completer_def)

text \<open>
  C8: \<open>inflect\<close> appends \<open>/\<close> when the name is a directory and one space otherwise; in the
  name, and not in the appended suffix, every space is preceded by a backslash and nothing
  else changes.  With the suffix toggle off, \<open>get_matches\<close> returns the candidates that
  survive the exclusion as they are.
\<close>

theorem inflect_suffix_and_escape:
  "inflect w name = escape name @ (if isdir w name then ''/'' else '' '') \<and>
   escape name
     = concat (map (\<lambda>ch. if ch = CHR '' '' then [CHR 0x5C, CHR '' ''] else [ch]) name) \<and>
   (\<not> use_suffix c \<longrightarrow>
      get_matches w c word =
        (case drain (exclude_matches w c (gen_matches w c word)) of
           Inl e \<Rightarrow> Inl e
         | Inr ms \<Rightarrow> Inr (Some ms)))"
  by (simp add: inflect_def escape_def str_replace_char get_matches_drain split: sum.splits)

theorem inflect_suffix_and_escape_witness:
  "inflect example_world ''my file'' = [CHR ''m'', CHR ''y'', CHR 0x5C] @ '' file '' \<and>
   inflect example_world ''fruit'' = ''fruit/'' \<and>
   get_matches example_world (example_completer \<lparr> use_suffix := False \<rparr>) ''fruit/b''
     = Inr (Some [''fruit/banana''])"
  using inflect_suffix_and_escape
          [of example_world "''my file''" "example_completer \<lparr> use_suffix := False \<rparr>"
              "''fruit/b''"]
        inflect_suffix_and_escape
          [of example_world "''fruit''" "example_completer \<lparr> use_suffix := False \<rparr>"
              "''fruit/b''"]
  by (simp add: gen_matches_def path_split_def path_join_def endswith_def
      gen_filename_completions_def prefix_phase_def
      example_world_def example_completer_def example_re_match_def
      py_re_match_def re_parse_def re_cons_def is_alnum_def)

text \<open>
  C9: for every pipeline whose transforms each undo, by their inverse, what their forward
  function produces on the inputs they support, and for every word the pipeline supports:
  applying the pipeline forward and then in inverse traversal order gives the word back.
  Consequently \<open>complete\<close>, which matches on the forward transform of the word and
  transforms the match it selects back, returns the text in the user's surface syntax:
  when the selected match is the forward transform of a supported text, \<open>complete\<close> returns
  that text.
\<close>

theorem transform_round_trip:
  assumes "\<forall>(t, S) \<in> set TS. \<forall>x y. S x \<and> forward_fn t x = Inr y \<longrightarrow> inverse_fn t y = Inr x"
      and "in_support TS w0"
  shows "\<exists>v. transform w0 (map fst TS) False = Inr v \<and>
             transform v (map fst TS) True = Inr w0 \<and>
             (\<forall>ms m u.
                transforms c = map fst TS \<and> get_matches w c v = Inr (Some ms) \<and>
                getitem ms state = Inr m \<and>
                in_support TS u \<and> transform u (map fst TS) False = Inr m \<longrightarrow>
                complete w c w0 state = Inr (Some u))"
proof -
  from supported_round_trip_rules [OF assms]
  obtain v where f: "transform w0 (map fst TS) False = Inr v"
    and b: "transform v (map fst TS) True = Inr w0"
    by (auto simp add: transform_def)
  have "complete w c w0 state = Inr (Some u)"
    if h: "transforms c = map fst TS" "get_matches w c v = Inr (Some ms)"
          "getitem ms state = Inr m" "in_support TS u"
          "transform u (map fst TS) False = Inr m"
    for ms m u
  proof -
    from supported_round_trip_rules [OF assms(1) h(4)] h(5)
    have "transform m (map fst TS) True = Inr u"
      by (auto simp add: transform_def)
    then show ?thesis
      using f h(1,2,3) by (simp add: complete_def)
  qed
  then show ?thesis
    using f b by blast
qed

theorem transform_round_trip_witness:
  "transform ''w'' [tag_transform (CHR ''a''), tag_transform (CHR ''b'')] False = Inr ''baw'' \<and>
   transform ''baw'' [tag_transform (CHR ''a''), tag_transform (CHR ''b'')] True = Inr ''w'' \<and>
   transform ''~/no'' [tilde_transform] False = Inr ''/home/user/no'' \<and>
   complete home_world home_completer ''~/no'' 0 = Inr (Some ''~/notes '')"
proof -
  have s1: "in_support [(tag_transform (CHR ''a''), \<lambda>s. True),
                        (tag_transform (CHR ''b''), \<lambda>s. True)] ''w''"
    by (simp add: tag_transform_def)
  have f1: "transform ''w'' [tag_transform (CHR ''a''), tag_transform (CHR ''b'')] False
              = Inr ''baw''"
    by (simp add: transform_def tag_transform_def)
  from transform_round_trip [OF tag_transforms_invertible s1] f1
  have b1: "transform ''baw'' [tag_transform (CHR ''a''), tag_transform (CHR ''b'')] True
              = Inr ''w''"
    by auto
  have s2: "in_support [(tilde_transform, tilde_support)] ''~/no''"
    by (simp add: tilde_transform_def tilde_support_def)
  have f2: "transform ''~/no'' [tilde_transform] False = Inr ''/home/user/no''"
    by (simp add: transform_def tilde_transform_def)
  have s3: "in_support [(tilde_transform, tilde_support)] ''~/notes ''"
    by (simp add: tilde_transform_def tilde_support_def)
  have f3: "transform ''~/notes '' [tilde_transform] False = Inr ''/home/user/notes ''"
    by (simp add: transform_def tilde_transform_def)
  have t: "transforms home_completer = map fst [(tilde_transform, tilde_support)]"
    by (simp add: home_completer_def)
  have g: "getitem [''/home/user/notes ''] 0 = Inr ''/home/user/notes ''"
    by (simp add: getitem_def)
  from transform_round_trip [OF tilde_transform_invertible s2, of home_completer home_world 0] f2
  have "\<forall>ms m u.
          transforms home_completer = map fst [(tilde_transform, tilde_support)] \<and>
          get_matches home_world home_completer ''/home/user/no'' = Inr (Some ms) \<and>
          getitem ms 0 = Inr m \<and>
          in_support [(tilde_transform, tilde_support)] u \<and>
          transform u (map fst [(tilde_transform, tilde_support)]) False = Inr m \<longrightarrow>
          complete home_world home_completer ''~/no'' 0 = Inr (Some u)"
    by auto
  then have c0: "complete home_world home_completer ''~/no'' 0 = Inr (Some ''~/notes '')"
    using t home_matches g s3 f3 by simp
  show ?thesis
    using f1 b1 f2 c0 by simp
qed

text \<open>
  C10: when the fragment is empty and every entry of the listing is hidden, the prefix
  phase yields nothing and the generator yields every entry, the hidden ones included.
\<close>

theorem all_hidden_empty_fragment:
  assumes "\<forall>f \<in> set filenames. is_hidden_file f"
  shows "snd (prefix_phase [] filenames) = [] \<and>
         gen_filename_completions [] filenames = filenames"
  using assms gen_filename_completions_empty [of filenames]
  by (simp add: prefix_phase_out filter_empty_conv)

theorem all_hidden_empty_fragment_witness:
  "is_hidden_file ''.git'' \<and> is_hidden_file ''.profile'' \<and>
   snd (prefix_phase [] [''.git'', ''.profile'']) = [] \<and>
   gen_filename_completions [] [''.git'', ''.profile''] = [''.git'', ''.profile'']"
proof -
  have h: "\<forall>f \<in> set [''.git'', ''.profile'']. is_hidden_file f"
    by (simp add: is_hidden_file_def)
  show ?thesis
    using h all_hidden_empty_fragment [OF h] by simp
qed

end
